theory Spec2Isabelle
  imports Main "HOL-Library.Word" "HOL-Library.List_Lexorder" "HOL-Library.AList"
begin

unbundle bit_operations_syntax

section \<open>levelq: a FIFO queue over an ordered key-value store (queue.go)\<close>

text \<open>
  The embedding follows \<^verbatim>\<open>src/queue.go\<close> function by function. Go's \<^verbatim>\<open>uint64\<close> is
  \<^typ>\<open>64 word\<close>, so \<open>+\<close> and \<open>-\<close> wrap around as in Go; \<^verbatim>\<open>[]byte\<close> is a list of
  \<^typ>\<open>8 word\<close>. A method that mutates the receiver takes the queue and returns the
  updated queue next to its Go result. A run-time panic is the \<open>Inl\<close> branch of the
  result. The mutex is not modelled: every function is one atomic step. The wrappers
  \<^verbatim>\<open>EnqueueObject\<close> and \<^verbatim>\<open>DequeueObject\<close> only put the gob encoding around \<^verbatim>\<open>enqueue\<close>
  and \<^verbatim>\<open>dequeue\<close> and are left out.
\<close>

type_synonym u64 = "64 word"
type_synonym byte = "8 word"
type_synonym bytes = "byte list"

text \<open>
  The package's error values, \<^verbatim>\<open>leveldb.ErrNotFound\<close> (what \<^verbatim>\<open>db.Get\<close> answers for
  an absent key) and any other error of the store or of the operating system.
\<close>

datatype error =
    ErrOutOfBounds
  | ErrDBClosed
  | ErrEmpty
  | ErrFull
  | ErrNotFound
  | ErrExternal string

datatype panic = DivideByZero | IndexOutOfRange

text \<open>
  \<^verbatim>\<open>var MaxQueueSize uint64 = math.MaxUint64 >> 2\<close>. It is a package variable (the
  test \<^verbatim>\<open>TestQueueWrap\<close> sets it to 5), so the functions below take its current value
  as their first argument \<open>mqs\<close>; the constant is its initial value.
\<close>

definition MaxQueueSize :: u64 where
  "MaxQueueSize = drop_bit 2 (- 1)"

text \<open>Go's \<^verbatim>\<open>a % b\<close> on unsigned integers: a run-time panic when \<open>b\<close> is zero.\<close>

definition go_mod :: "u64 \<Rightarrow> u64 \<Rightarrow> panic + u64" where
  "go_mod a b = (if b = 0 then Inl DivideByZero else Inr (a mod b))"

subsection \<open>The store\<close>

text \<open>
  \<^verbatim>\<open>leveldb.DB\<close> is a library outside the repository. It is modelled by its contents,
  an association list from keys to values, and by the outcomes of the store calls to
  come: each call takes the next outcome of \<open>pending\<close>, where \<open>None\<close> (or an exhausted
  list) lets the call succeed and \<open>Some e\<close> makes it fail with \<open>e\<close>, leaving the
  contents as they are.
\<close>

record DB =
  entries :: "(bytes \<times> bytes) list"
  pending :: "error option list"

definition io_outcome :: "DB \<Rightarrow> error option \<times> DB" where
  "io_outcome d = (case pending d of [] \<Rightarrow> (None, d) | r # rs \<Rightarrow> (r, d\<lparr>pending := rs\<rparr>))"

definition db_Put :: "bytes \<Rightarrow> bytes \<Rightarrow> DB \<Rightarrow> error option \<times> DB" where
  "db_Put k v d =
     (case io_outcome d of
        (Some e, d') \<Rightarrow> (Some e, d')
      | (None, d') \<Rightarrow> (None, d'\<lparr>entries := AList.update k v (entries d')\<rparr>))"

definition db_Get :: "bytes \<Rightarrow> DB \<Rightarrow> (error + bytes) \<times> DB" where
  "db_Get k d =
     (case io_outcome d of
        (Some e, d') \<Rightarrow> (Inl e, d')
      | (None, d') \<Rightarrow>
          (case map_of (entries d') k of
             None \<Rightarrow> (Inl ErrNotFound, d')
           | Some v \<Rightarrow> (Inr v, d')))"

definition db_Delete :: "bytes \<Rightarrow> DB \<Rightarrow> error option \<times> DB" where
  "db_Delete k d =
     (case io_outcome d of
        (Some e, d') \<Rightarrow> (Some e, d')
      | (None, d') \<Rightarrow> (None, d'\<lparr>entries := AList.delete k (entries d')\<rparr>))"

definition db_Close :: "DB \<Rightarrow> error option \<times> DB" where
  "db_Close d = io_outcome d"

text \<open>
  The iterator walks a snapshot of the keys in ascending bytewise order (the
  lexicographic order on byte lists). \<^verbatim>\<open>First\<close> and \<^verbatim>\<open>Last\<close> answer false on an empty
  store and on an error; an error stays with the iterator and \<^verbatim>\<open>Error\<close> reports it.
  \<^verbatim>\<open>Release\<close> hands the remaining outcomes back to the store.
\<close>

record Iterator =
  it_keys :: "bytes list"
  it_key :: bytes
  it_err :: "error option"
  it_io :: "error option list"

definition db_NewIterator :: "DB \<Rightarrow> Iterator" where
  "db_NewIterator d =
     \<lparr>it_keys = sort (map fst (entries d)), it_key = [], it_err = None, it_io = pending d\<rparr>"

definition iter_seek :: "(bytes list \<Rightarrow> bytes) \<Rightarrow> Iterator \<Rightarrow> bool \<times> Iterator" where
  "iter_seek pick it =
     (if it_err it \<noteq> None then (False, it)
      else case it_io it of
             Some e # rs \<Rightarrow> (False, it\<lparr>it_err := Some e, it_io := rs\<rparr>)
           | io \<Rightarrow>
               if it_keys it = [] then (False, it\<lparr>it_io := tl io\<rparr>)
               else (True, it\<lparr>it_key := pick (it_keys it), it_io := tl io\<rparr>))"

definition iter_First :: "Iterator \<Rightarrow> bool \<times> Iterator" where
  "iter_First it = iter_seek hd it"

definition iter_Last :: "Iterator \<Rightarrow> bool \<times> Iterator" where
  "iter_Last it = iter_seek last it"

definition iter_Release :: "Iterator \<Rightarrow> DB \<Rightarrow> DB" where
  "iter_Release it d = d\<lparr>pending := it_io it\<rparr>"

subsection \<open>The file system\<close>

text \<open>
  \<^verbatim>\<open>os.RemoveAll\<close> removes a path and everything below it, and answers nil when the
  path does not exist. The file system is the list of its paths, with the outcomes of
  the calls to come as for the store.
\<close>

record filesys =
  paths :: "string list"
  os_pending :: "error option list"

definition below :: "string \<Rightarrow> string \<Rightarrow> bool" where
  "below p x = (x = p \<or> take (Suc (length p)) x = p @ ''/'')"

definition os_RemoveAll :: "string \<Rightarrow> filesys \<Rightarrow> error option \<times> filesys" where
  "os_RemoveAll p fs =
     (case os_pending fs of
        Some e # rs \<Rightarrow> (Some e, fs\<lparr>os_pending := rs\<rparr>)
      | io \<Rightarrow> (None, fs\<lparr>paths := filter (\<lambda>x. \<not> below p x) (paths fs), os_pending := tl io\<rparr>))"

subsection \<open>Keys\<close>

text \<open>\<^verbatim>\<open>idToKey\<close>: \<^verbatim>\<open>binary.BigEndian.PutUint64\<close> into a fresh slice of 8 bytes.\<close>

definition idToKey :: "u64 \<Rightarrow> bytes" where
  "idToKey i =
     [ucast (drop_bit 56 i), ucast (drop_bit 48 i), ucast (drop_bit 40 i),
      ucast (drop_bit 32 i), ucast (drop_bit 24 i), ucast (drop_bit 16 i),
      ucast (drop_bit 8 i), ucast i]"

text \<open>
  \<^verbatim>\<open>keyToID\<close>: \<^verbatim>\<open>binary.BigEndian.Uint64\<close> reads the first 8 bytes and panics (index out
  of range) on a shorter slice.
\<close>

definition be_Uint64 :: "bytes \<Rightarrow> u64" where
  "be_Uint64 b =
     ucast (b ! 7) OR push_bit 8 (ucast (b ! 6)) OR push_bit 16 (ucast (b ! 5)) OR
     push_bit 24 (ucast (b ! 4)) OR push_bit 32 (ucast (b ! 3)) OR
     push_bit 40 (ucast (b ! 2)) OR push_bit 48 (ucast (b ! 1)) OR
     push_bit 56 (ucast (b ! 0))"

definition keyToID :: "bytes \<Rightarrow> panic + u64" where
  "keyToID key = (if length key < 8 then Inl IndexOutOfRange else Inr (be_Uint64 key))"

subsection \<open>The queue\<close>

record Queue =
  DataDir :: string
  db :: DB
  head :: u64
  tail :: u64
  isOpen :: bool

definition Length :: "u64 \<Rightarrow> Queue \<Rightarrow> panic + u64" where
  "Length mqs q = go_mod (mqs + tail q - head q) mqs"

definition enqueue :: "u64 \<Rightarrow> bytes \<Rightarrow> Queue \<Rightarrow> panic + (error option \<times> Queue)" where
  "enqueue mqs v q =
     (if \<not> isOpen q then Inr (Some ErrDBClosed, q)
      else case go_mod (tail q + 1) mqs of
             Inl p \<Rightarrow> Inl p
           | Inr nextID \<Rightarrow>
               if nextID = head q then Inr (Some ErrFull, q)
               else case db_Put (idToKey nextID) v (db q) of
                      (Some err, d) \<Rightarrow> Inr (Some err, q\<lparr>db := d\<rparr>)
                    | (None, d) \<Rightarrow> Inr (None, q\<lparr>db := d, tail := nextID\<rparr>))"

text \<open>The last block of \<^verbatim>\<open>getValueByID\<close> (``Get value from database'').\<close>

definition getValueByID_db :: "u64 \<Rightarrow> Queue \<Rightarrow> (error + bytes) \<times> Queue" where
  "getValueByID_db i q =
     (case db_Get (idToKey i) (db q) of
        (Inl err, d) \<Rightarrow> (Inl err, q\<lparr>db := d\<rparr>)
      | (Inr v, d) \<Rightarrow> (Inr v, q\<lparr>db := d\<rparr>))"

definition getValueByID :: "u64 \<Rightarrow> u64 \<Rightarrow> Queue \<Rightarrow> panic + ((error + bytes) \<times> Queue)" where
  "getValueByID mqs i q =
     (case Length mqs q of
        Inl p \<Rightarrow> Inl p
      | Inr n \<Rightarrow>
          if n = 0 then Inr (Inl ErrEmpty, q)
          else if head q < tail q then
            (if i \<le> head q \<or> i > tail q then Inr (Inl ErrOutOfBounds, q)
             else Inr (getValueByID_db i q))
          else if tail q < head q then
            (if i > tail q \<and> i \<le> head q then Inr (Inl ErrOutOfBounds, q)
             else Inr (getValueByID_db i q))
          else Inr (getValueByID_db i q))"

definition dequeue :: "u64 \<Rightarrow> Queue \<Rightarrow> panic + ((error + bytes) \<times> Queue)" where
  "dequeue mqs q =
     (if \<not> isOpen q then Inr (Inl ErrDBClosed, q)
      else case go_mod (head q + 1) mqs of
             Inl p \<Rightarrow> Inl p
           | Inr nextID \<Rightarrow>
               (case getValueByID mqs nextID q of
                  Inl p \<Rightarrow> Inl p
                | Inr (Inl err, q1) \<Rightarrow> Inr (Inl err, q1)
                | Inr (Inr v, q1) \<Rightarrow>
                    (case db_Delete (idToKey nextID) (db q1) of
                       (Some err, d) \<Rightarrow> Inr (Inl err, q1\<lparr>db := d\<rparr>)
                     | (None, d) \<Rightarrow> Inr (Inr v, q1\<lparr>db := d, head := nextID\<rparr>))))"

definition Close :: "Queue \<Rightarrow> error option \<times> Queue" where
  "Close q =
     (if \<not> isOpen q then (None, q)
      else case db_Close (db q) of
             (Some err, d) \<Rightarrow> (Some err, q\<lparr>db := d\<rparr>)
           | (None, d) \<Rightarrow> (None, q\<lparr>db := d, head := 0, tail := 0, isOpen := False\<rparr>))"

definition Drop :: "Queue \<Rightarrow> filesys \<Rightarrow> error option \<times> Queue \<times> filesys" where
  "Drop q fs =
     (case Close q of
        (Some err, q') \<Rightarrow> (Some err, q', fs)
      | (None, q') \<Rightarrow>
          (case os_RemoveAll (DataDir q') fs of (r, fs') \<Rightarrow> (r, q', fs')))"

text \<open>
  \<^verbatim>\<open>init\<close>: the head from the first key, the tail from the last one, the iterator's
  error as the result; the deferred \<^verbatim>\<open>Release\<close> runs last.
\<close>

definition init :: "Queue \<Rightarrow> panic + (error option \<times> Queue)" where
  "init q =
     (let iter = db_NewIterator (db q) in
      case iter_First iter of (ok1, iter1) \<Rightarrow>
        (case (if ok1 then map_sum id (\<lambda>i. i - 1) (keyToID (it_key iter1)) else Inr (head q)) of
           Inl p \<Rightarrow> Inl p
         | Inr h \<Rightarrow>
             (case iter_Last iter1 of (ok2, iter2) \<Rightarrow>
                (case (if ok2 then keyToID (it_key iter2) else Inr (tail q)) of
                   Inl p \<Rightarrow> Inl p
                 | Inr t \<Rightarrow>
                     Inr (it_err iter2,
                          q\<lparr>db := iter_Release iter2 (db q), head := h, tail := t\<rparr>)))))"

text \<open>
  \<^verbatim>\<open>OpenQueue\<close>. The argument \<open>opened\<close> is what \<^verbatim>\<open>leveldb.OpenFile(dataDir, nil)\<close>
  answered: an error, or the store found (or created) in the directory. On an error the
  queue is returned closed; its store handle, nil in Go, is an empty store here and is
  never used.
\<close>

definition OpenQueue :: "string \<Rightarrow> error + DB \<Rightarrow> panic + (error option \<times> Queue)" where
  "OpenQueue dataDir opened =
     (let q = \<lparr>DataDir = dataDir, db = \<lparr>entries = [], pending = []\<rparr>,
                head = 0, tail = 0, isOpen = False\<rparr>
      in case opened of
           Inl err \<Rightarrow> Inr (Some err, q)
         | Inr d \<Rightarrow> init (q\<lparr>db := d, isOpen := True\<rparr>))"

subsection \<open>Runs of operations\<close>

text \<open>
  A caller's sequence of \<^verbatim>\<open>enqueue\<close> and \<^verbatim>\<open>dequeue\<close> calls, with the result of each call in
  order. A panic ends the run.
\<close>

datatype op = Enq bytes | Deq

datatype outcome = Enqueued "error option" | Dequeued "error + bytes"

fun run :: "u64 \<Rightarrow> op list \<Rightarrow> Queue \<Rightarrow> panic + (outcome list \<times> Queue)" where
  "run mqs [] q = Inr ([], q)"
| "run mqs (Enq v # ops) q =
     (case enqueue mqs v q of
        Inl p \<Rightarrow> Inl p
      | Inr (r, q') \<Rightarrow>
          (case run mqs ops q' of
             Inl p \<Rightarrow> Inl p
           | Inr (rs, q'') \<Rightarrow> Inr (Enqueued r # rs, q'')))"
| "run mqs (Deq # ops) q =
     (case dequeue mqs q of
        Inl p \<Rightarrow> Inl p
      | Inr (r, q') \<Rightarrow>
          (case run mqs ops q' of
             Inl p \<Rightarrow> Inl p
           | Inr (rs, q'') \<Rightarrow> Inr (Dequeued r # rs, q'')))"

text \<open>The numbers of successful enqueues and of successful dequeues among the results.\<close>

fun enqueues :: "outcome list \<Rightarrow> nat" where
  "enqueues [] = 0"
| "enqueues (Enqueued None # rs) = Suc (enqueues rs)"
| "enqueues (_ # rs) = enqueues rs"

fun dequeues :: "outcome list \<Rightarrow> nat" where
  "dequeues [] = 0"
| "dequeues (Dequeued (Inr v) # rs) = Suc (dequeues rs)"
| "dequeues (_ # rs) = dequeues rs"

text \<open>A store none of whose coming calls fails.\<close>

definition reliable :: "DB \<Rightarrow> bool" where
  "reliable d = (\<forall>r \<in> set (pending d). r = None)"

subsection \<open>Example states\<close>

text \<open>A queue just opened on an empty store.\<close>

definition q_fresh :: Queue where
  "q_fresh = \<lparr>DataDir = ''data'', db = \<lparr>entries = [], pending = []\<rparr>,
               head = 0, tail = 0, isOpen = True\<rparr>"

text \<open>A full ring for \<open>mqs = 5\<close>: the identifiers 1 to 4 are stored.\<close>

definition q_full5 :: Queue where
  "q_full5 = \<lparr>DataDir = ''data'',
               db = \<lparr>entries = [(idToKey 1, [1]), (idToKey 2, [2]), (idToKey 3, [3]),
                                 (idToKey 4, [4])], pending = []\<rparr>,
               head = 0, tail = 4, isOpen = True\<rparr>"

text \<open>A queue holding one value, and the same queue after \<^verbatim>\<open>Close\<close>.\<close>

definition q_one :: Queue where
  "q_one = \<lparr>DataDir = ''data'', db = \<lparr>entries = [(idToKey 1, [1])], pending = []\<rparr>,
             head = 0, tail = 1, isOpen = True\<rparr>"

definition q_closed :: Queue where
  "q_closed = \<lparr>DataDir = ''data'', db = \<lparr>entries = [(idToKey 1, [1])], pending = []\<rparr>,
                head = 0, tail = 0, isOpen = False\<rparr>"

text \<open>A file system with the data directory, a file in it, and another directory.\<close>

definition fs_example :: filesys where
  "fs_example = \<lparr>paths = [''data'', ''data/LOG'', ''other''], os_pending = []\<rparr>"

text \<open>
  A queue whose store has a gap, as \<^verbatim>\<open>init\<close> recovers it from a store holding the keys
  of 1 and 3 only; and the same queue with a failing store call ahead.
\<close>

definition q_gap :: Queue where
  "q_gap = \<lparr>DataDir = ''data'',
             db = \<lparr>entries = [(idToKey 1, [1]), (idToKey 3, [3])], pending = []\<rparr>,
             head = 0, tail = 3, isOpen = True\<rparr>"

definition q_gap_fail :: Queue where
  "q_gap_fail = q_gap\<lparr>db := (db q_gap)\<lparr>pending := [Some (ErrExternal ''io'')]\<rparr>\<rparr>"

text \<open>
  A wrapped ring for \<open>mqs = 5\<close>: the tail has passed 0, the identifiers 4, 0 and 1 are
  stored.
\<close>

definition q_wrap :: Queue where
  "q_wrap = \<lparr>DataDir = ''data'',
              db = \<lparr>entries = [(idToKey 4, [4]), (idToKey 0, [0]), (idToKey 1, [1])],
                    pending = []\<rparr>,
              head = 3, tail = 1, isOpen = True\<rparr>"

text \<open>A queue as \<^verbatim>\<open>OpenQueue\<close> builds it before \<^verbatim>\<open>init\<close>, over a store with the keys of 3 and 2.\<close>

definition q_two :: Queue where
  "q_two = \<lparr>DataDir = ''data'',
             db = \<lparr>entries = [(idToKey 3, [3]), (idToKey 2, [2])], pending = []\<rparr>,
             head = 0, tail = 0, isOpen = True\<rparr>"

text \<open>
  The steps of \<^verbatim>\<open>TestQueueWrap\<close> up to its last enqueue, and the queue they leave for
  \<open>mqs = 5\<close>: the only stored key is that of identifier 0.
\<close>

definition wrap_ops :: "op list" where
  "wrap_ops = [Enq [1], Deq, Enq [1], Deq, Enq [1], Deq, Enq [1], Deq, Enq [1]]"

definition q_wrapped :: Queue where
  "q_wrapped = \<lparr>DataDir = ''data'', db = \<lparr>entries = [(idToKey 0, [1])], pending = []\<rparr>,
                 head = 4, tail = 0, isOpen = True\<rparr>"

text \<open>The fresh queue after two enqueues and one dequeue.\<close>

definition q_after :: Queue where
  "q_after = \<lparr>DataDir = ''data'', db = \<lparr>entries = [(idToKey 2, [2])], pending = []\<rparr>,
               head = 1, tail = 2, isOpen = True\<rparr>"

text \<open>The fresh queue after the enqueues of ``a'', ``b'' and ``c'', and after three dequeues more.\<close>

definition q_abc :: Queue where
  "q_abc = \<lparr>DataDir = ''data'',
             db = \<lparr>entries = [(idToKey 1, [97]), (idToKey 2, [98]), (idToKey 3, [99])],
                   pending = []\<rparr>,
             head = 0, tail = 3, isOpen = True\<rparr>"

definition q_drained :: Queue where
  "q_drained = \<lparr>DataDir = ''data'', db = \<lparr>entries = [], pending = []\<rparr>,
                 head = 3, tail = 3, isOpen = True\<rparr>"

section \<open>Properties\<close>

subsection \<open>Full and empty queues\<close>

text \<open>
  C5. On an open queue (with \<open>MaxQueueSize\<close> not zero), if
  \<open>(tail + 1) mod MaxQueueSize = head\<close> then \<^verbatim>\<open>enqueue\<close> fails with \<open>ErrFull\<close> and
  returns the queue as it was: head, tail and the store (contents and calls made) are
  unchanged, so no key is written.
\<close>

theorem enqueue_full_unchanged:
  assumes "isOpen q" and "mqs \<noteq> 0" and "(tail q + 1) mod mqs = head q"
  shows "enqueue mqs v q = Inr (Some ErrFull, q)"
  using assms by (simp add: enqueue_def go_mod_def)

theorem enqueue_full_unchanged_witness:
  "enqueue 5 [9] q_full5 = Inr (Some ErrFull, q_full5)"
  using enqueue_full_unchanged [of q_full5 5 "[9]"] by (simp add: q_full5_def)

text \<open>
  C6. On an open queue (with \<open>MaxQueueSize\<close> not zero) with \<open>head = tail\<close>,
  \<^verbatim>\<open>dequeue\<close> fails with \<open>ErrEmpty\<close> and returns the queue as it was: head, tail and
  the store are unchanged.
\<close>

theorem dequeue_empty_unchanged:
  assumes "isOpen q" and "mqs \<noteq> 0" and "head q = tail q"
  shows "dequeue mqs q = Inr (Inl ErrEmpty, q)"
  using assms by (simp add: dequeue_def getValueByID_def Length_def go_mod_def)

theorem dequeue_empty_unchanged_witness:
  "dequeue 5 q_fresh = Inr (Inl ErrEmpty, q_fresh)"
  using dequeue_empty_unchanged [of q_fresh 5] by (simp add: q_fresh_def)

subsection \<open>Close and Drop\<close>

text \<open>
  C9. \<^verbatim>\<open>Close\<close> on a closed queue returns nil and changes nothing. On an open queue
  whose store closes without error it returns nil, sets head and tail to 0 and marks the
  queue closed; in that state \<^verbatim>\<open>enqueue\<close> and \<^verbatim>\<open>dequeue\<close> fail with \<open>ErrDBClosed\<close> and
  leave the state as it is (so every later call fails the same way), and \<^verbatim>\<open>Length\<close> is 0
  (for \<open>MaxQueueSize\<close> not zero).
\<close>

theorem Close_semantics:
  "(\<not> isOpen q \<longrightarrow> Close q = (None, q)) \<and>
   (isOpen q \<and> fst (db_Close (db q)) = None \<longrightarrow>
      (\<exists>q'. Close q = (None, q') \<and> head q' = 0 \<and> tail q' = 0 \<and> \<not> isOpen q' \<and>
         (\<forall>mqs v. enqueue mqs v q' = Inr (Some ErrDBClosed, q')) \<and>
         (\<forall>mqs. dequeue mqs q' = Inr (Inl ErrDBClosed, q')) \<and>
         (\<forall>mqs. mqs \<noteq> 0 \<longrightarrow> Length mqs q' = Inr 0)))"
  by (auto simp: Close_def enqueue_def dequeue_def Length_def go_mod_def
           split: prod.splits option.splits)

theorem Close_semantics_witness:
  "Close q_closed = (None, q_closed) \<and>
   Close q_one = (None, q_closed) \<and>
   enqueue 5 [7] q_closed = Inr (Some ErrDBClosed, q_closed) \<and>
   dequeue 5 q_closed = Inr (Inl ErrDBClosed, q_closed) \<and>
   Length 5 q_closed = Inr 0"
proof -
  have c: "Close q_one = (None, q_closed)"
    by (simp add: Close_def q_one_def q_closed_def db_Close_def io_outcome_def)
  have o: "isOpen q_one \<and> fst (db_Close (db q_one)) = None"
    by (simp add: q_one_def db_Close_def io_outcome_def)
  have n: "\<not> isOpen q_closed"
    by (simp add: q_closed_def)
  from Close_semantics [of q_closed] n have 1: "Close q_closed = (None, q_closed)"
    by blast
  from Close_semantics [of q_one] o c
  have 2: "(\<forall>mqs v. enqueue mqs v q_closed = Inr (Some ErrDBClosed, q_closed)) \<and>
           (\<forall>mqs. dequeue mqs q_closed = Inr (Inl ErrDBClosed, q_closed)) \<and>
           (\<forall>mqs. mqs \<noteq> 0 \<longrightarrow> Length mqs q_closed = Inr 0)"
    by auto
  from 2 have "Length 5 q_closed = Inr 0"
    by simp
  with 1 2 c show ?thesis
    by simp
qed

text \<open>
  C10. \<^verbatim>\<open>Drop\<close> on a closed queue: \<^verbatim>\<open>Close\<close> answers nil without touching the queue, so
  \<^verbatim>\<open>Drop\<close> goes on to \<^verbatim>\<open>os.RemoveAll(q.DataDir)\<close> and returns its result; when
  the removal succeeds the data directory is gone from the file system.
\<close>

theorem Drop_closed_removes:
  assumes "\<not> isOpen q"
  shows "Drop q fs = (fst (os_RemoveAll (DataDir q) fs), q, snd (os_RemoveAll (DataDir q) fs)) \<and>
         (fst (os_RemoveAll (DataDir q) fs) = None \<longrightarrow>
            DataDir q \<notin> set (paths (snd (os_RemoveAll (DataDir q) fs))))"
  using assms
  by (auto simp: Drop_def Close_def os_RemoveAll_def below_def
           split: prod.splits list.splits option.splits)

theorem Drop_closed_removes_witness:
  "Drop q_closed fs_example = (None, q_closed, \<lparr>paths = [''other''], os_pending = []\<rparr>)"
proof -
  have "\<not> isOpen q_closed"
    by (simp add: q_closed_def)
  from Drop_closed_removes [OF this, of fs_example] show ?thesis
    by (simp add: os_RemoveAll_def fs_example_def q_closed_def below_def)
qed

subsection \<open>Lookup by identifier\<close>

lemma getValueByID_db_fst:
  "fst (getValueByID_db i q) = fst (db_Get (idToKey i) (db q))"
  by (simp add: getValueByID_db_def split: prod.splits sum.splits)

lemma db_Get_not_found:
  "fst (io_outcome d) = None \<Longrightarrow> map_of (entries d) k = None \<Longrightarrow>
   fst (db_Get k d) = Inl ErrNotFound"
  by (cases "pending d") (auto simp: db_Get_def io_outcome_def)

lemma db_Get_fails:
  "fst (io_outcome d) = Some e \<Longrightarrow> fst (db_Get k d) = Inl e"
  by (cases "pending d") (auto simp: db_Get_def io_outcome_def)

lemma getValueByID_in_range:
  assumes "Length mqs q = Inr n" and "n \<noteq> 0"
    and "head q < tail q \<longrightarrow> head q < i \<and> i \<le> tail q"
    and "tail q < head q \<longrightarrow> i \<le> tail q \<or> head q < i"
  shows "getValueByID mqs i q = Inr (getValueByID_db i q)"
proof (cases "head q < tail q")
  case True
  with assms(3) have "\<not> (i \<le> head q \<or> i > tail q)"
    by (simp add: not_le not_less)
  with True assms(1,2) show ?thesis
    by (simp add: getValueByID_def)
next
  case False
  show ?thesis
  proof (cases "tail q < head q")
    case True
    with assms(4) have "\<not> (i > tail q \<and> i \<le> head q)"
      by (auto simp: not_le not_less)
    with True False assms(1,2) show ?thesis
      by (auto simp: getValueByID_def)
  next
    case neither: False
    with False assms(1,2) show ?thesis
      by (simp add: getValueByID_def)
  qed
qed

text \<open>
  C4, as the claim states it, fails: with head 0 and tail 3 the identifier 2 passes
  the emptiness and bounds checks, the store holds no entry under its key, and the
  lookup answers the store's \<open>ErrNotFound\<close>, not \<open>ErrOutOfBounds\<close>.
\<close>

theorem getValueByID_not_found_counterexample:
  "Length 5 q_gap = Inr 3 \<and> head q_gap < tail q_gap \<and>
   \<not> (2 \<le> head q_gap \<or> 2 > tail q_gap) \<and>
   map_of (entries (db q_gap)) (idToKey 2) = None \<and>
   getValueByID 5 2 q_gap = Inr (Inl ErrNotFound, q_gap) \<and>
   getValueByID 5 2 q_gap \<noteq> Inr (Inl ErrOutOfBounds, q_gap)"
  by (simp add: getValueByID_def getValueByID_db_def Length_def go_mod_def q_gap_def
        db_Get_def io_outcome_def idToKey_def)

text \<open>
  C4, amended. When the identifier passes the emptiness and bounds checks,
  \<^verbatim>\<open>getValueByID\<close> answers what \<^verbatim>\<open>db.Get\<close> answers for its key: every error of the store
  unchanged, and so the store's own \<open>ErrNotFound\<close> when the call goes through and the
  store holds no entry under the key.
\<close>

theorem getValueByID_store_errors:
  assumes "Length mqs q = Inr n" and "n \<noteq> 0"
    and "head q < tail q \<longrightarrow> head q < i \<and> i \<le> tail q"
    and "tail q < head q \<longrightarrow> i \<le> tail q \<or> head q < i"
  shows "getValueByID mqs i q = Inr (getValueByID_db i q) \<and>
         fst (getValueByID_db i q) = fst (db_Get (idToKey i) (db q)) \<and>
         (fst (io_outcome (db q)) = None \<and> map_of (entries (db q)) (idToKey i) = None \<longrightarrow>
            fst (getValueByID_db i q) = Inl ErrNotFound) \<and>
         (\<forall>e. fst (io_outcome (db q)) = Some e \<longrightarrow> fst (getValueByID_db i q) = Inl e)"
  using getValueByID_in_range [OF assms]
  by (simp add: getValueByID_db_fst db_Get_not_found db_Get_fails)

theorem getValueByID_store_errors_witness:
  "getValueByID 5 2 q_gap = Inr (Inl ErrNotFound, q_gap) \<and>
   fst (getValueByID_db 2 q_gap_fail) = Inl (ErrExternal ''io'')"
proof -
  have a: "Length 5 q_gap = Inr 3" "(3::u64) \<noteq> 0"
     "head q_gap < tail q_gap \<longrightarrow> head q_gap < 2 \<and> 2 \<le> tail q_gap"
     "tail q_gap < head q_gap \<longrightarrow> 2 \<le> tail q_gap \<or> head q_gap < 2"
    by (simp_all add: Length_def go_mod_def q_gap_def)
  have b: "Length 5 q_gap_fail = Inr 3"
     "head q_gap_fail < tail q_gap_fail \<longrightarrow> head q_gap_fail < 2 \<and> 2 \<le> tail q_gap_fail"
     "tail q_gap_fail < head q_gap_fail \<longrightarrow> 2 \<le> tail q_gap_fail \<or> head q_gap_fail < 2"
    by (simp_all add: Length_def go_mod_def q_gap_fail_def q_gap_def)
  have c: "fst (io_outcome (db q_gap)) = None \<and> map_of (entries (db q_gap)) (idToKey 2) = None"
    by (simp add: q_gap_def io_outcome_def idToKey_def)
  have d: "fst (io_outcome (db q_gap_fail)) = Some (ErrExternal ''io'')"
    by (simp add: q_gap_fail_def q_gap_def io_outcome_def)
  have e: "snd (getValueByID_db 2 q_gap) = q_gap"
    by (simp add: getValueByID_db_def q_gap_def db_Get_def io_outcome_def idToKey_def)
  from getValueByID_store_errors [OF a] c
  have x: "getValueByID 5 2 q_gap = Inr (getValueByID_db 2 q_gap)"
    and y: "fst (getValueByID_db 2 q_gap) = Inl ErrNotFound"
    by blast+
  from y e have "getValueByID_db 2 q_gap = (Inl ErrNotFound, q_gap)"
    by (simp add: prod_eq_iff)
  with x have 1: "getValueByID 5 2 q_gap = Inr (Inl ErrNotFound, q_gap)"
    by simp
  from getValueByID_store_errors [OF b(1) a(2) b(2,3)] d
  have 2: "fst (getValueByID_db 2 q_gap_fail) = Inl (ErrExternal ''io'')"
    by blast
  from 1 2 show ?thesis
    by simp
qed

subsection \<open>Length\<close>

text \<open>
  The initial value of \<open>MaxQueueSize\<close> is \<open>2 ^ 62 - 1\<close>: not zero, and at most
  \<open>2 ^ 63\<close>, the bound under which the sum in \<^verbatim>\<open>Length\<close> cannot wrap around.
\<close>

lemma MaxQueueSize_value: "MaxQueueSize = 2 ^ 62 - 1"
  by (simp add: MaxQueueSize_def mask_eq_exp_minus_1)

lemma MaxQueueSize_in_range: "MaxQueueSize \<noteq> 0 \<and> MaxQueueSize \<le> 2 ^ 63"
  by (simp add: MaxQueueSize_def mask_eq_exp_minus_1)

text \<open>
  The sum \<open>MaxQueueSize + tail - head\<close> does not wrap around when head and tail are
  below \<open>MaxQueueSize\<close> and \<open>MaxQueueSize\<close> is at most \<open>2 ^ 63\<close>.
\<close>

lemma unat_ring_sum:
  fixes mqs h t :: u64
  assumes "h < mqs" and "t < mqs" and "mqs \<le> 2 ^ 63"
  shows "unat (mqs + t - h) = unat mqs + unat t - unat h"
proof -
  have m: "unat mqs \<le> 2 ^ 63"
    using assms(3) by (simp add: word_le_nat_alt)
  have ht: "unat h < unat mqs" "unat t < unat mqs"
    using assms(1,2) by (simp_all add: word_less_nat_alt)
  have "unat mqs + unat t < 2 ^ LENGTH(64)"
    using m ht by simp
  then have s: "unat (mqs + t) = unat mqs + unat t"
    by (rule unat_add_lem [THEN iffD1])
  have "h \<le> mqs + t"
    using s ht by (simp add: word_le_nat_alt)
  then have "unat (mqs + t - h) = unat (mqs + t) - unat h"
    by (rule unat_sub)
  with s show ?thesis by simp
qed

lemma ring_mod_nat:
  fixes N T H :: nat
  assumes "H < N" and "T < N"
  shows "(N + T - H) mod N = (if H \<le> T then T - H else N - H + T)"
proof (cases "H \<le> T")
  case True
  then have "N + T - H = N + (T - H)" by arith
  then have "(N + T - H) mod N = (T - H) mod N" by (simp only: mod_add_self1)
  also have "\<dots> = T - H" using assms(2) by (intro mod_less) arith
  finally show ?thesis using True by (simp only: if_True)
next
  case False
  then have "N + T - H < N" using assms by arith
  then have "(N + T - H) mod N = N + T - H" by (rule mod_less)
  also have "\<dots> = N - H + T" using assms False by arith
  finally show ?thesis using False by (simp only: if_False)
qed

lemma unat_Length:
  assumes "head q < mqs" and "tail q < mqs" and "mqs \<le> 2 ^ 63"
  shows "\<exists>n. Length mqs q = Inr n \<and>
           unat n = (if head q \<le> tail q then unat (tail q) - unat (head q)
                     else unat mqs - unat (head q) + unat (tail q))"
proof -
  have nz: "mqs \<noteq> 0" using assms(1) by auto
  have ht: "unat (head q) < unat mqs" "unat (tail q) < unat mqs"
    using assms(1,2) by (simp_all add: word_less_nat_alt)
  have "unat ((mqs + tail q - head q) mod mqs) = (unat mqs + unat (tail q) - unat (head q)) mod unat mqs"
    by (simp only: unat_mod_distrib unat_ring_sum [OF assms])
  also have "\<dots> = (if unat (head q) \<le> unat (tail q) then unat (tail q) - unat (head q)
                     else unat mqs - unat (head q) + unat (tail q))"
    by (rule ring_mod_nat [OF ht])
  finally have "unat ((mqs + tail q - head q) mod mqs) =
      (if head q \<le> tail q then unat (tail q) - unat (head q)
                     else unat mqs - unat (head q) + unat (tail q))"
    by (simp only: word_le_nat_alt)
  moreover have "Length mqs q = Inr ((mqs + tail q - head q) mod mqs)"
    using nz by (simp add: Length_def go_mod_def)
  ultimately show ?thesis by blast
qed


lemma Length_zero_iff:
  assumes "head q < mqs" and "tail q < mqs" and "mqs \<le> 2 ^ 63"
  shows "Length mqs q = Inr 0 \<longleftrightarrow> head q = tail q"
proof -
  from unat_Length [OF assms] obtain n where
    n: "Length mqs q = Inr n"
       "unat n = (if head q \<le> tail q then unat (tail q) - unat (head q)
                  else unat mqs - unat (head q) + unat (tail q))"
    by blast
  have ht: "unat (head q) < unat mqs" "unat (tail q) < unat mqs"
    using assms(1,2) by (simp_all add: word_less_nat_alt)
  have "unat n = 0 \<longleftrightarrow> unat (head q) = unat (tail q)"
  proof (cases "head q \<le> tail q")
    case True
    then have le: "unat (head q) \<le> unat (tail q)" by (simp add: word_le_nat_alt)
    from n(2) True have "unat n = unat (tail q) - unat (head q)" by simp
    with le show ?thesis by arith
  next
    case False
    then have lt: "unat (tail q) < unat (head q)" by (simp add: word_le_nat_alt)
    from n(2) False have "unat n = unat mqs - unat (head q) + unat (tail q)" by simp
    with lt ht show ?thesis by arith
  qed
  moreover have "unat n = 0 \<longleftrightarrow> n = 0"
    by (rule unat_eq_0)
  moreover have "head q = tail q \<longleftrightarrow> unat (head q) = unat (tail q)"
    by (rule word_unat_eq_iff)
  ultimately have "n = 0 \<longleftrightarrow> head q = tail q"
    by argo
  with n(1) show ?thesis by simp
qed

subsection \<open>The bounds checks of the lookup\<close>

text \<open>
  C8. With head and tail below \<open>MaxQueueSize\<close> (and \<open>MaxQueueSize\<close> at most \<open>2 ^ 63\<close>,
  as its initial value and the tests' values are): when \<open>head = tail\<close> the lookup fails
  with \<open>ErrEmpty\<close> for every identifier; when \<open>head < tail\<close> it fails with
  \<open>ErrOutOfBounds\<close> for \<open>i \<le> head\<close> and for \<open>i > tail\<close>, and goes to the store for every
  other identifier; when \<open>tail < head\<close> it fails with \<open>ErrOutOfBounds\<close> for the identifiers
  in \<open>(tail, head]\<close>, and goes to the store for every other identifier. The failing
  cases leave the queue as it is.
\<close>

theorem getValueByID_bounds_policy:
  assumes "head q < mqs" and "tail q < mqs" and "mqs \<le> 2 ^ 63"
  shows "(head q = tail q \<longrightarrow> (\<forall>i. getValueByID mqs i q = Inr (Inl ErrEmpty, q))) \<and>
         (head q < tail q \<longrightarrow>
            (\<forall>i. getValueByID mqs i q =
                  (if i \<le> head q \<or> tail q < i then Inr (Inl ErrOutOfBounds, q)
                   else Inr (getValueByID_db i q)))) \<and>
         (tail q < head q \<longrightarrow>
            (\<forall>i. getValueByID mqs i q =
                  (if tail q < i \<and> i \<le> head q then Inr (Inl ErrOutOfBounds, q)
                   else Inr (getValueByID_db i q))))"
proof -
  from unat_Length [OF assms] obtain n where n: "Length mqs q = Inr n"
    by blast
  from Length_zero_iff [OF assms] n have z: "n = 0 \<longleftrightarrow> head q = tail q"
    by simp
  have 1: "head q = tail q \<longrightarrow> (\<forall>i. getValueByID mqs i q = Inr (Inl ErrEmpty, q))"
    using n z by (simp add: getValueByID_def)
  have 2: "head q < tail q \<longrightarrow>
            (\<forall>i. getValueByID mqs i q =
                  (if i \<le> head q \<or> tail q < i then Inr (Inl ErrOutOfBounds, q)
                   else Inr (getValueByID_db i q)))"
  proof (intro impI allI)
    fix i
    assume lt: "head q < tail q"
    then have "head q \<noteq> tail q" by simp
    with z have "n \<noteq> 0" by simp
    with n lt show "getValueByID mqs i q =
                  (if i \<le> head q \<or> tail q < i then Inr (Inl ErrOutOfBounds, q)
                   else Inr (getValueByID_db i q))"
      by (simp add: getValueByID_def)
  qed
  have 3: "tail q < head q \<longrightarrow>
            (\<forall>i. getValueByID mqs i q =
                  (if tail q < i \<and> i \<le> head q then Inr (Inl ErrOutOfBounds, q)
                   else Inr (getValueByID_db i q)))"
  proof (intro impI allI)
    fix i
    assume lt: "tail q < head q"
    then have ne: "head q \<noteq> tail q" and nlt: "\<not> head q < tail q"
      by (simp_all add: not_less less_imp_le)
    from ne z have "n \<noteq> 0" by simp
    with n lt nlt show "getValueByID mqs i q =
                  (if tail q < i \<and> i \<le> head q then Inr (Inl ErrOutOfBounds, q)
                   else Inr (getValueByID_db i q))"
      by (simp add: getValueByID_def)
  qed
  from 1 2 3 show ?thesis by blast
qed

theorem getValueByID_bounds_policy_witness:
  "getValueByID 5 1 q_fresh = Inr (Inl ErrEmpty, q_fresh) \<and>
   getValueByID 5 0 q_gap = Inr (Inl ErrOutOfBounds, q_gap) \<and>
   getValueByID 5 4 q_gap = Inr (Inl ErrOutOfBounds, q_gap) \<and>
   getValueByID 5 3 q_gap = Inr (Inr [3], q_gap) \<and>
   getValueByID 5 2 q_wrap = Inr (Inl ErrOutOfBounds, q_wrap) \<and>
   getValueByID 5 3 q_wrap = Inr (Inl ErrOutOfBounds, q_wrap) \<and>
   getValueByID 5 4 q_wrap = Inr (Inr [4], q_wrap) \<and>
   getValueByID 5 0 q_wrap = Inr (Inr [0], q_wrap)"
proof -
  have f: "head q_fresh < 5" "tail q_fresh < 5" "head q_fresh = tail q_fresh"
    by (simp_all add: q_fresh_def)
  have g: "head q_gap < 5" "tail q_gap < 5" "head q_gap < tail q_gap"
    by (simp_all add: q_gap_def)
  have w: "head q_wrap < 5" "tail q_wrap < 5" "tail q_wrap < head q_wrap"
    by (simp_all add: q_wrap_def)
  have m: "(5::u64) \<le> 2 ^ 63"
    by simp
  have ht: "head q_gap = 0" "tail q_gap = 3" "head q_wrap = 3" "tail q_wrap = 1"
    by (simp_all add: q_gap_def q_wrap_def)
  have db: "getValueByID_db 3 q_gap = (Inr [3], q_gap)"
    "getValueByID_db 4 q_wrap = (Inr [4], q_wrap)"
    "getValueByID_db 0 q_wrap = (Inr [0], q_wrap)"
    by (simp_all add: getValueByID_db_def db_Get_def io_outcome_def idToKey_def
          q_gap_def q_wrap_def)
  from getValueByID_bounds_policy [OF f(1,2) m] f(3)
  have 1: "getValueByID 5 1 q_fresh = Inr (Inl ErrEmpty, q_fresh)"
    by blast
  from getValueByID_bounds_policy [OF g(1,2) m] g(3)
  have "\<forall>i. getValueByID 5 i q_gap =
          (if i \<le> head q_gap \<or> tail q_gap < i then Inr (Inl ErrOutOfBounds, q_gap)
           else Inr (getValueByID_db i q_gap))"
    by blast
  then have 2: "getValueByID 5 0 q_gap = Inr (Inl ErrOutOfBounds, q_gap)"
    "getValueByID 5 4 q_gap = Inr (Inl ErrOutOfBounds, q_gap)"
    "getValueByID 5 3 q_gap = Inr (Inr [3], q_gap)"
    by (simp_all add: db ht)
  from getValueByID_bounds_policy [OF w(1,2) m] w(3)
  have "\<forall>i. getValueByID 5 i q_wrap =
          (if tail q_wrap < i \<and> i \<le> head q_wrap then Inr (Inl ErrOutOfBounds, q_wrap)
           else Inr (getValueByID_db i q_wrap))"
    by blast
  then have 3: "getValueByID 5 2 q_wrap = Inr (Inl ErrOutOfBounds, q_wrap)"
    "getValueByID 5 3 q_wrap = Inr (Inl ErrOutOfBounds, q_wrap)"
    "getValueByID 5 4 q_wrap = Inr (Inr [4], q_wrap)"
    "getValueByID 5 0 q_wrap = Inr (Inr [0], q_wrap)"
    by (simp_all add: db ht)
  from 1 2 3 show ?thesis
    by simp
qed

subsection \<open>Recovery of head and tail\<close>

text \<open>The iterator's first and last keys are the least and the greatest key.\<close>

lemma hd_sort_Min: "ks \<noteq> [] \<Longrightarrow> hd (sort ks) = Min (set ks)"
proof -
  assume ne: "ks \<noteq> []"
  then have s: "sort ks \<noteq> []" by (cases ks) auto
  then obtain x xs where xs: "sort ks = x # xs" by (cases "sort ks") auto
  have "sorted (x # xs)" using xs [symmetric] by simp
  then have "\<forall>y \<in> set (x # xs). x \<le> y" by auto
  then have "\<forall>y \<in> set ks. x \<le> y" using xs by (metis set_sort)
  moreover have "x \<in> set ks" using xs by (metis list.set_intros(1) set_sort)
  ultimately have "Min (set ks) = x" by (intro Min_eqI) auto
  with xs show ?thesis by simp
qed

lemma sorted_le_last: "sorted xs \<Longrightarrow> y \<in> set xs \<Longrightarrow> y \<le> last xs"
  by (induction xs) auto

lemma last_sort_Max: "ks \<noteq> [] \<Longrightarrow> last (sort ks) = Max (set ks)"
proof -
  assume ne: "ks \<noteq> []"
  then have s: "sort ks \<noteq> []" by (cases ks) auto
  have "\<forall>y \<in> set (sort ks). y \<le> last (sort ks)"
    by (simp add: sorted_le_last)
  then have "\<forall>y \<in> set ks. y \<le> last (sort ks)" by simp
  moreover have "last (sort ks) \<in> set ks" using s by (metis last_in_set set_sort)
  ultimately have "Max (set ks) = last (sort ks)" by (intro Max_eqI) auto
  then show ?thesis by simp
qed

lemma iter_seek_reliable:
  assumes "it_err it = None" and "\<forall>r \<in> set (it_io it). r = None"
  shows "iter_seek pick it =
           (if it_keys it = [] then (False, it\<lparr>it_io := tl (it_io it)\<rparr>)
            else (True, it\<lparr>it_key := pick (it_keys it), it_io := tl (it_io it)\<rparr>))"
  using assms by (cases "it_io it") (auto simp: iter_seek_def split: option.splits)

lemma set_tl_None: "\<forall>r \<in> set xs. r = None \<Longrightarrow> \<forall>r \<in> set (tl xs). r = None"
  by (cases xs) auto

lemma init_empty:
  assumes "reliable (db q)" and "entries (db q) = []"
  shows "init q = Inr (None, q\<lparr>db := (db q)\<lparr>pending := tl (tl (pending (db q)))\<rparr>\<rparr>)"
proof -
  let ?it = "db_NewIterator (db q)"
  have e: "it_err ?it = None" "it_keys ?it = []" "\<forall>r \<in> set (it_io ?it). r = None"
    using assms by (simp_all add: db_NewIterator_def reliable_def)
  have 1: "iter_First ?it = (False, ?it\<lparr>it_io := tl (it_io ?it)\<rparr>)"
    unfolding iter_First_def using iter_seek_reliable [OF e(1) e(3)] e(2) by simp
  let ?it1 = "?it\<lparr>it_io := tl (it_io ?it)\<rparr>"
  have e1: "it_err ?it1 = None" "it_keys ?it1 = []" "\<forall>r \<in> set (it_io ?it1). r = None"
    using e set_tl_None [OF e(3)] by simp_all
  have 2: "iter_Last ?it1 = (False, ?it1\<lparr>it_io := tl (it_io ?it1)\<rparr>)"
    unfolding iter_Last_def using iter_seek_reliable [OF e1(1) e1(3)] e1(2) by simp
  show ?thesis
    apply (simp add: init_def Let_def 1 2)
    apply (simp add: iter_Release_def db_NewIterator_def)
    done
qed

lemma init_nonempty:
  assumes "reliable (db q)" and "entries (db q) \<noteq> []"
    and "keyToID (Min (fst ` set (entries (db q)))) = Inr a"
    and "keyToID (Max (fst ` set (entries (db q)))) = Inr b"
  shows "init q = Inr (None, q\<lparr>db := (db q)\<lparr>pending := tl (tl (pending (db q)))\<rparr>,
                                 head := a - 1, tail := b\<rparr>)"
proof -
  let ?it = "db_NewIterator (db q)"
  let ?ks = "map fst (entries (db q))"
  have ne: "?ks \<noteq> []" using assms(2) by simp
  have e: "it_err ?it = None" "it_keys ?it = sort ?ks" "\<forall>r \<in> set (it_io ?it). r = None"
    using assms by (simp_all add: db_NewIterator_def reliable_def)
  have s: "sort ?ks \<noteq> []" using ne by (cases ?ks) auto
  let ?it1 = "?it\<lparr>it_key := hd (sort ?ks), it_io := tl (it_io ?it)\<rparr>"
  have 1: "iter_First ?it = (True, ?it1)"
    unfolding iter_First_def using iter_seek_reliable [OF e(1) e(3)] e(2) s by simp
  have e1: "it_err ?it1 = None" "it_keys ?it1 = sort ?ks" "\<forall>r \<in> set (it_io ?it1). r = None"
    using e set_tl_None [OF e(3)] by simp_all
  let ?it2 = "?it1\<lparr>it_key := last (sort ?ks), it_io := tl (it_io ?it1)\<rparr>"
  have 2: "iter_Last ?it1 = (True, ?it2)"
    unfolding iter_Last_def using iter_seek_reliable [OF e1(1) e1(3)] e1(2) s by simp
  have k1: "keyToID (it_key ?it1) = Inr a"
    using assms(3) hd_sort_Min [OF ne] by simp
  have k2: "keyToID (it_key ?it2) = Inr b"
    using assms(4) last_sort_Max [OF ne] by simp
  show ?thesis
    apply (simp add: init_def Let_def 1 2 k1 [simplified] k2 [simplified])
    apply (simp add: iter_Release_def db_NewIterator_def)
    done
qed

text \<open>
  C2. When no store call fails: over a store with at least one key, whose least and
  greatest keys decode (have 8 bytes or more), \<^verbatim>\<open>init\<close> sets head to the identifier of the
  least key minus 1 (\<^verbatim>\<open>uint64\<close> subtraction) and tail to the identifier of the greatest
  key; over an empty store it leaves head and tail as they are, which is 0 for both in
  \<^verbatim>\<open>OpenQueue\<close>.
\<close>

theorem init_recovery:
  assumes "reliable (db q)"
  shows "(entries (db q) \<noteq> [] \<longrightarrow>
            (\<forall>a b. keyToID (Min (fst ` set (entries (db q)))) = Inr a \<and>
                   keyToID (Max (fst ` set (entries (db q)))) = Inr b \<longrightarrow>
               (\<exists>q'. init q = Inr (None, q') \<and> head q' = a - 1 \<and> tail q' = b \<and>
                     entries (db q') = entries (db q)))) \<and>
         (entries (db q) = [] \<longrightarrow>
            (\<exists>q'. init q = Inr (None, q') \<and> head q' = head q \<and> tail q' = tail q) \<and>
            (\<exists>q'. OpenQueue dataDir (Inr (db q)) = Inr (None, q') \<and> head q' = 0 \<and> tail q' = 0))"
proof (intro conjI impI allI)
  fix a b
  assume "entries (db q) \<noteq> []"
    and "keyToID (Min (fst ` set (entries (db q)))) = Inr a \<and>
         keyToID (Max (fst ` set (entries (db q)))) = Inr b"
  then show "\<exists>q'. init q = Inr (None, q') \<and> head q' = a - 1 \<and> tail q' = b \<and>
                     entries (db q') = entries (db q)"
    using init_nonempty [OF assms, of a b] by simp
next
  assume "entries (db q) = []"
  then show "\<exists>q'. init q = Inr (None, q') \<and> head q' = head q \<and> tail q' = tail q"
    using init_empty [OF assms] by simp
next
  assume e: "entries (db q) = []"
  let ?q = "\<lparr>DataDir = dataDir, db = db q, head = 0, tail = 0, isOpen = True\<rparr>"
  have "reliable (db ?q)" "entries (db ?q) = []"
    using assms e by simp_all
  from init_empty [OF this]
  show "\<exists>q'. OpenQueue dataDir (Inr (db q)) = Inr (None, q') \<and> head q' = 0 \<and> tail q' = 0"
    by (simp add: OpenQueue_def)
qed

theorem init_recovery_witness:
  "init q_two = Inr (None, q_two\<lparr>head := 1, tail := 3\<rparr>) \<and>
   init q_fresh = Inr (None, q_fresh) \<and>
   OpenQueue ''data'' (Inr (db q_fresh)) = Inr (None, q_fresh)"
proof -
  have r: "reliable (db q_two)" "reliable (db q_fresh)"
    by (simp_all add: reliable_def q_two_def q_fresh_def)
  have k: "entries (db q_two) \<noteq> []"
    "keyToID (Min (fst ` set (entries (db q_two)))) = Inr 2 \<and>
     keyToID (Max (fst ` set (entries (db q_two)))) = Inr 3"
    by (simp_all add: q_two_def idToKey_def keyToID_def be_Uint64_def)
  have e: "entries (db q_fresh) = []"
    by (simp add: q_fresh_def)
  from init_recovery [OF r(1)] k
  obtain qa where 1: "init q_two = Inr (None, qa)" "head qa = 2 - 1" "tail qa = 3"
    by blast
  from init_recovery [OF r(2), of "''data''"] e
  obtain qb qc where 2: "init q_fresh = Inr (None, qb)"
     "OpenQueue ''data'' (Inr (db q_fresh)) = Inr (None, qc)" "head qc = 0"
    by blast
  have 3: "init q_two = Inr (None, q_two\<lparr>head := 1, tail := 3\<rparr>)"
    by (simp add: init_def db_NewIterator_def iter_First_def iter_Last_def iter_seek_def
          iter_Release_def q_two_def idToKey_def keyToID_def be_Uint64_def)
  have 4: "init q_fresh = Inr (None, q_fresh)"
    "OpenQueue ''data'' (Inr (db q_fresh)) = Inr (None, q_fresh)"
    by (simp_all add: OpenQueue_def init_def db_NewIterator_def iter_First_def iter_Last_def
          iter_seek_def iter_Release_def q_fresh_def)
  from 1 2 3 4 show ?thesis by simp
qed

subsection \<open>The range of head and tail\<close>

text \<open>
  \<^verbatim>\<open>enqueue\<close>, \<^verbatim>\<open>dequeue\<close> and \<^verbatim>\<open>Close\<close> keep head and tail below \<open>MaxQueueSize\<close>.
\<close>

lemma enqueue_keeps_range:
  assumes "enqueue mqs v q = Inr (r, q')" and "head q < mqs" and "tail q < mqs"
  shows "head q' < mqs \<and> tail q' < mqs"
proof -
  have nz: "mqs \<noteq> 0" using assms(2) by auto
  then have "(tail q + 1) mod mqs < mqs"
    by (simp add: word_mod_less_divisor word_neq_0_conv)
  with assms nz show ?thesis
    by (auto simp: enqueue_def go_mod_def split: if_splits prod.splits option.splits)
qed

lemma dequeue_keeps_range:
  assumes "dequeue mqs q = Inr (r, q')" and "head q < mqs" and "tail q < mqs"
  shows "head q' < mqs \<and> tail q' < mqs"
proof -
  have nz: "mqs \<noteq> 0" using assms(2) by auto
  then have m: "(head q + 1) mod mqs < mqs"
    by (simp add: word_mod_less_divisor word_neq_0_conv)
  have g: "\<And>i r q1. getValueByID mqs i q = Inr (r, q1) \<Longrightarrow> head q1 = head q \<and> tail q1 = tail q"
    by (auto simp: getValueByID_def getValueByID_db_def split: sum.splits if_splits prod.splits)
  from assms(1) nz show ?thesis
    using m assms(2,3) g
    by (auto simp: dequeue_def go_mod_def split: if_splits prod.splits option.splits sum.splits)
qed

lemma word_less_pos: "(h::u64) < m \<Longrightarrow> 0 < m"
  by (simp add: word_less_nat_alt)

lemma Close_keeps_range:
  assumes "Close q = (r, q')" and "head q < mqs" and "tail q < mqs"
  shows "head q' < mqs \<and> tail q' < mqs"
  using assms word_less_pos [OF assms(2)] by (auto simp: Close_def split: if_splits prod.splits option.splits)

lemma idToKey_small:
  "idToKey 0 = [0,0,0,0,0,0,0,0]" "idToKey 1 = [0,0,0,0,0,0,0,1]" "idToKey 2 = [0,0,0,0,0,0,0,2]"
  "idToKey 3 = [0,0,0,0,0,0,0,3]" "idToKey 4 = [0,0,0,0,0,0,0,4]"
  by (simp_all add: idToKey_def)

text \<open>
  The steps of \<^verbatim>\<open>TestQueueWrap\<close> up to its last enqueue leave head 4, tail 0 and the
  key of identifier 0 as the only key of the store.
\<close>

lemma wrap_run:
  "run 5 wrap_ops q_fresh =
     Inr ([Enqueued None, Dequeued (Inr [1]), Enqueued None, Dequeued (Inr [1]),
           Enqueued None, Dequeued (Inr [1]), Enqueued None, Dequeued (Inr [1]),
           Enqueued None], q_wrapped)"
  by (simp add: idToKey_small wrap_ops_def q_fresh_def q_wrapped_def enqueue_def dequeue_def getValueByID_def
        getValueByID_db_def Length_def go_mod_def db_Put_def db_Get_def db_Delete_def
        io_outcome_def word_le_nat_alt)

text \<open>
  C3 fails after recovery. Opening a queue on the store that \<^verbatim>\<open>TestQueueWrap\<close>'s steps
  leave (\<open>MaxQueueSize = 5\<close>, first key of identifier 0), \<^verbatim>\<open>init\<close> computes
  \<open>head = 0 - 1\<close>, which is \<open>2 ^ 64 - 1\<close> and not below \<open>MaxQueueSize\<close>.
\<close>

theorem init_head_underflow:
  "run 5 wrap_ops q_fresh =
     Inr ([Enqueued None, Dequeued (Inr [1]), Enqueued None, Dequeued (Inr [1]),
           Enqueued None, Dequeued (Inr [1]), Enqueued None, Dequeued (Inr [1]),
           Enqueued None], q_wrapped) \<and>
   OpenQueue ''data'' (Inr (db q_wrapped)) = Inr (None, q_wrapped\<lparr>head := - 1, tail := 0\<rparr>) \<and>
   \<not> (- 1 :: u64) < 5"
  by (simp add: idToKey_small wrap_run OpenQueue_def init_def db_NewIterator_def iter_First_def iter_Last_def
        iter_seek_def iter_Release_def q_wrapped_def keyToID_def be_Uint64_def)

text \<open>
  With head at \<open>2 ^ 64 - 1\<close> no next identifier ever equals head: where the ring with
  head 4 refuses the fourth enqueue as full, the recovered queue accepts five and the last
  one overwrites the oldest entry (identifier 0), which was never dequeued.
\<close>

lemma full_ring_refuses:
  "run 5 [Enq [2], Enq [3], Enq [4], Enq [5]] q_wrapped =
     Inr ([Enqueued None, Enqueued None, Enqueued None, Enqueued (Some ErrFull)],
          q_wrapped\<lparr>tail := 3,
            db := \<lparr>entries = [(idToKey 0, [1]), (idToKey 1, [2]), (idToKey 2, [3]),
                              (idToKey 3, [4])], pending = []\<rparr>\<rparr>)"
  by (simp add: idToKey_small q_wrapped_def enqueue_def go_mod_def db_Put_def io_outcome_def)

lemma underflow_overwrites:
  "run 5 [Enq [2], Enq [3], Enq [4], Enq [5], Enq [6]] (q_wrapped\<lparr>head := - 1\<rparr>) =
     Inr ([Enqueued None, Enqueued None, Enqueued None, Enqueued None, Enqueued None],
          q_wrapped\<lparr>head := - 1, tail := 0,
            db := \<lparr>entries = [(idToKey 0, [6]), (idToKey 1, [2]), (idToKey 2, [3]),
                              (idToKey 3, [4]), (idToKey 4, [5])], pending = []\<rparr>\<rparr>)"
  by (simp add: idToKey_small q_wrapped_def enqueue_def go_mod_def db_Put_def io_outcome_def)

subsection \<open>Single steps\<close>

text \<open>What a successful and what a failed call does to head and tail.\<close>

lemma OpenQueue_fresh:
  assumes "entries d = []" and "OpenQueue dataDir (Inr d) = Inr (r, q0)"
  shows "head q0 = 0 \<and> tail q0 = 0 \<and> isOpen q0 \<and> entries (db q0) = [] \<and> DataDir q0 = dataDir"
  using assms
  by (auto simp: OpenQueue_def init_def Let_def db_NewIterator_def iter_First_def iter_Last_def
        iter_seek_def iter_Release_def split: list.splits option.splits if_splits)

lemma enqueue_success:
  assumes "enqueue mqs v q = Inr (None, q')"
  shows "mqs \<noteq> 0 \<and> isOpen q \<and> isOpen q' \<and> tail q' = (tail q + 1) mod mqs \<and> head q' = head q \<and>
         (tail q + 1) mod mqs \<noteq> head q"
  using assms
  by (auto simp: enqueue_def go_mod_def split: if_splits prod.splits option.splits)

lemma enqueue_failure:
  assumes "enqueue mqs v q = Inr (Some e, q')"
  shows "head q' = head q \<and> tail q' = tail q"
  using assms
  by (auto simp: enqueue_def go_mod_def split: if_splits prod.splits option.splits)

lemma getValueByID_frame:
  assumes "getValueByID mqs i q = Inr (r, q1)"
  shows "head q1 = head q \<and> tail q1 = tail q \<and> isOpen q1 = isOpen q"
  using assms
  by (auto simp: getValueByID_def getValueByID_db_def split: sum.splits if_splits prod.splits)

lemma getValueByID_nonempty:
  assumes "getValueByID mqs i q = Inr (Inr v, q1)"
  shows "Length mqs q \<noteq> Inr 0"
  using assms
  by (auto simp: getValueByID_def split: sum.splits if_splits)

lemma dequeue_success:
  assumes "dequeue mqs q = Inr (Inr v, q')"
  shows "mqs \<noteq> 0 \<and> head q' = (head q + 1) mod mqs \<and> tail q' = tail q \<and> Length mqs q \<noteq> Inr 0"
proof -
  from assms have o: "isOpen q" and nz: "mqs \<noteq> 0"
    by (auto simp: dequeue_def go_mod_def split: if_splits)
  from assms o nz obtain q1 where
    g: "getValueByID mqs ((head q + 1) mod mqs) q = Inr (Inr v, q1)"
    by (auto simp: dequeue_def go_mod_def split: sum.splits prod.splits option.splits)
  from assms o nz g have "head q' = (head q + 1) mod mqs \<and> tail q' = tail q1"
    by (auto simp: dequeue_def go_mod_def split: prod.splits option.splits)
  with getValueByID_frame [OF g] getValueByID_nonempty [OF g] nz show ?thesis
    by simp
qed

lemma dequeue_failure:
  assumes "dequeue mqs q = Inr (Inl e, q')"
  shows "head q' = head q \<and> tail q' = tail q"
proof (cases "isOpen q \<and> mqs \<noteq> 0")
  case False
  with assms show ?thesis
    by (auto simp: dequeue_def go_mod_def split: if_splits)
next
  case True
  show ?thesis
  proof (cases "getValueByID mqs ((head q + 1) mod mqs) q")
    case (Inl p)
    with assms True show ?thesis
      by (simp add: dequeue_def go_mod_def)
  next
    case (Inr x)
    obtain r q1 where x: "x = (r, q1)" by (cases x)
    from getValueByID_frame [OF Inr [unfolded x]] assms True Inr x show ?thesis
      by (auto simp: dequeue_def go_mod_def split: sum.splits prod.splits option.splits)
  qed
qed

subsection \<open>Length after a run\<close>

lemma unat_succ_mod:
  fixes t mqs :: u64
  assumes "Suc (unat t) < unat mqs"
  shows "unat ((t + 1) mod mqs) = Suc (unat t)"
proof -
  have "unat mqs < 2 ^ LENGTH(64)"
    by (rule unsigned_less)
  with assms have "unat t + unat (1::u64) < 2 ^ LENGTH(64)"
    by simp
  then have "unat (t + 1) = unat t + unat (1::u64)"
    by (rule unat_add_lem [THEN iffD1])
  then have s: "unat (t + 1) = Suc (unat t)"
    by simp
  have "unat ((t + 1) mod mqs) = unat (t + 1) mod unat mqs"
    by (rule unat_mod_distrib)
  also have "\<dots> = Suc (unat t)"
    using assms s by simp
  finally show ?thesis .
qed

lemma run_Enq:
  assumes "run mqs (Enq v # ops) q = Inr (rs, q')"
  obtains r q1 rs1 where "enqueue mqs v q = Inr (r, q1)" and "run mqs ops q1 = Inr (rs1, q')"
    and "rs = Enqueued r # rs1"
  using assms by (auto split: sum.splits prod.splits)

lemma run_Deq:
  assumes "run mqs (Deq # ops) q = Inr (rs, q')"
  obtains r q1 rs1 where "dequeue mqs q = Inr (r, q1)" and "run mqs ops q1 = Inr (rs1, q')"
    and "rs = Dequeued r # rs1"
  using assms by (auto split: sum.splits prod.splits)

lemma run_counts:
  assumes m: "mqs \<le> 2 ^ 63"
  shows "run mqs ops q = Inr (rs, q') \<Longrightarrow> unat (tail q) + enqueues rs < unat mqs \<Longrightarrow>
         unat (head q) \<le> unat (tail q) \<Longrightarrow>
         unat (tail q') = unat (tail q) + enqueues rs \<and>
         unat (head q') = unat (head q) + dequeues rs \<and>
         unat (head q') \<le> unat (tail q')"
proof (induction ops arbitrary: q rs)
  case Nil
  then show ?case by simp
next
  case (Cons x ops)
  show ?case
  proof (cases x)
    case (Enq v)
    with Cons.prems(1) have "run mqs (Enq v # ops) q = Inr (rs, q')"
      by simp
    then obtain r q1 rs1 where
      e: "enqueue mqs v q = Inr (r, q1)" and r: "run mqs ops q1 = Inr (rs1, q')"
      and rs: "rs = Enqueued r # rs1"
      by (rule run_Enq)
    show ?thesis
    proof (cases r)
      case None
      from enqueue_success [OF e [unfolded None]]
      have t: "tail q1 = (tail q + 1) mod mqs" and h: "head q1 = head q"
        by simp_all
      from Cons.prems(2) rs None have lt: "Suc (unat (tail q)) + enqueues rs1 < unat mqs"
        by simp
      then have "Suc (unat (tail q)) < unat mqs"
        by simp
      from unat_succ_mod [OF this] t have t1: "unat (tail q1) = Suc (unat (tail q))"
        by simp
      from Cons.IH [OF r] lt t1 h Cons.prems(3)
      have "unat (tail q') = unat (tail q1) + enqueues rs1 \<and>
            unat (head q') = unat (head q1) + dequeues rs1 \<and> unat (head q') \<le> unat (tail q')"
        by simp
      with t1 h rs None show ?thesis
        by simp
    next
      case (Some err)
      from enqueue_failure [OF e [unfolded Some]]
      have t: "tail q1 = tail q" and h: "head q1 = head q"
        by simp_all
      from Cons.IH [OF r] Cons.prems(2,3) rs Some t h
      have "unat (tail q') = unat (tail q1) + enqueues rs1 \<and>
            unat (head q') = unat (head q1) + dequeues rs1 \<and> unat (head q') \<le> unat (tail q')"
        by simp
      with t h rs Some show ?thesis
        by simp
    qed
  next
    case Deq
    with Cons.prems(1) have "run mqs (Deq # ops) q = Inr (rs, q')"
      by simp
    then obtain r q1 rs1 where
      d: "dequeue mqs q = Inr (r, q1)" and r: "run mqs ops q1 = Inr (rs1, q')"
      and rs: "rs = Dequeued r # rs1"
      by (rule run_Deq)
    show ?thesis
    proof (cases r)
      case (Inr v)
      from dequeue_success [OF d [unfolded Inr]]
      have h: "head q1 = (head q + 1) mod mqs" and t: "tail q1 = tail q"
        and l: "Length mqs q \<noteq> Inr 0"
        by simp_all
      from Cons.prems(2) have tm: "unat (tail q) < unat mqs"
        by simp
      with Cons.prems(3) have "head q < mqs" "tail q < mqs"
        by (simp_all add: word_less_nat_alt)
      from Length_zero_iff [OF this m] l have "head q \<noteq> tail q"
        by simp
      then have "unat (head q) \<noteq> unat (tail q)"
        by (simp add: word_unat_eq_iff)
      with Cons.prems(3) have hl: "Suc (unat (head q)) \<le> unat (tail q)"
        by simp
      with tm have "Suc (unat (head q)) < unat mqs"
        by simp
      from unat_succ_mod [OF this] h have h1: "unat (head q1) = Suc (unat (head q))"
        by simp
      from Cons.IH [OF r] Cons.prems(2) rs Inr t h1 hl
      have "unat (tail q') = unat (tail q1) + enqueues rs1 \<and>
            unat (head q') = unat (head q1) + dequeues rs1 \<and> unat (head q') \<le> unat (tail q')"
        by simp
      with t h1 rs Inr show ?thesis
        by simp
    next
      case (Inl err)
      from dequeue_failure [OF d [unfolded Inl]]
      have t: "tail q1 = tail q" and h: "head q1 = head q"
        by simp_all
      from Cons.IH [OF r] Cons.prems(2,3) rs Inl t h
      have "unat (tail q') = unat (tail q1) + enqueues rs1 \<and>
            unat (head q') = unat (head q1) + dequeues rs1 \<and> unat (head q') \<le> unat (tail q')"
        by simp
      with t h rs Inl show ?thesis
        by simp
    qed
  qed
qed

text \<open>
  C7. From a queue just opened on an empty store, after any run of calls of which \<open>k\<close>
  enqueues and \<open>j\<close> dequeues succeeded, with \<open>k < MaxQueueSize\<close> (and \<open>MaxQueueSize\<close> at
  most \<open>2 ^ 63\<close>): \<open>j \<le> k\<close> and \<^verbatim>\<open>Length\<close> returns \<open>k - j\<close>. \<^verbatim>\<open>Length\<close> is
  \<open>(MaxQueueSize + tail - head) mod MaxQueueSize\<close>, and for head and tail below
  \<open>MaxQueueSize\<close> that is the number of identifiers from head (excluded) to tail
  (included) along the ring, also when tail is numerically below head.
\<close>

theorem Length_counts:
  assumes "mqs \<le> 2 ^ 63"
    and "entries d = []" and "OpenQueue dataDir (Inr d) = Inr (None, q0)"
    and "run mqs ops q0 = Inr (rs, q)"
    and "enqueues rs < unat mqs"
  shows "dequeues rs \<le> enqueues rs \<and>
         Length mqs q = Inr (of_nat (enqueues rs - dequeues rs)) \<and>
         (\<forall>q'. head q' < mqs \<and> tail q' < mqs \<longrightarrow>
            (\<exists>n. Length mqs q' = Inr n \<and> n = (mqs + tail q' - head q') mod mqs \<and>
                 unat n = (if head q' \<le> tail q' then unat (tail q') - unat (head q')
                           else unat mqs - unat (head q') + unat (tail q'))))"
proof (intro conjI allI impI)
  from OpenQueue_fresh [OF assms(2,3)] have z: "head q0 = 0" "tail q0 = 0"
    by simp_all
  from run_counts [OF assms(1,4)] z assms(5)
  have c: "unat (tail q) = enqueues rs" "unat (head q) = dequeues rs"
    "unat (head q) \<le> unat (tail q)"
    by simp_all
  from c show "dequeues rs \<le> enqueues rs"
    by simp
  from c assms(5) have r: "head q < mqs" "tail q < mqs" and le: "head q \<le> tail q"
    by (simp_all add: word_less_nat_alt word_le_nat_alt)
  from unat_Length [OF r assms(1)] le c obtain n where
    n: "Length mqs q = Inr n" "unat n = enqueues rs - dequeues rs"
    by auto
  from n(2) have "of_nat (unat n) = (of_nat (enqueues rs - dequeues rs) :: u64)"
    by simp
  then have "n = of_nat (enqueues rs - dequeues rs)"
    by simp
  with n(1) show "Length mqs q = Inr (of_nat (enqueues rs - dequeues rs))"
    by simp
next
  fix q' :: Queue
  assume a: "head q' < mqs \<and> tail q' < mqs"
  then have nz: "mqs \<noteq> 0"
    by auto
  from a unat_Length [OF _ _ assms(1), of q'] obtain n where
    n: "Length mqs q' = Inr n"
       "unat n = (if head q' \<le> tail q' then unat (tail q') - unat (head q')
                  else unat mqs - unat (head q') + unat (tail q'))"
    by blast
  from n(1) nz have "n = (mqs + tail q' - head q') mod mqs"
    by (simp add: Length_def go_mod_def)
  with n show "\<exists>n. Length mqs q' = Inr n \<and> n = (mqs + tail q' - head q') mod mqs \<and>
                 unat n = (if head q' \<le> tail q' then unat (tail q') - unat (head q')
                           else unat mqs - unat (head q') + unat (tail q'))"
    by blast
qed

theorem Length_counts_witness:
  "run 5 [Enq [1], Enq [2], Deq] q_fresh =
     Inr ([Enqueued None, Enqueued None, Dequeued (Inr [1])], q_after) \<and>
   Length 5 q_after = Inr 1 \<and> Length 5 q_wrap = Inr 3"
proof -
  have o: "entries (db q_fresh) = []"
    "OpenQueue ''data'' (Inr (db q_fresh)) = Inr (None, q_fresh)"
    by (simp_all add: OpenQueue_def init_def db_NewIterator_def iter_First_def iter_Last_def
          iter_seek_def iter_Release_def q_fresh_def)
  have r: "run 5 [Enq [1], Enq [2], Deq] q_fresh =
     Inr ([Enqueued None, Enqueued None, Dequeued (Inr [1])], q_after)"
    by (simp add: idToKey_small q_fresh_def q_after_def enqueue_def dequeue_def getValueByID_def
        getValueByID_db_def Length_def go_mod_def db_Put_def db_Get_def db_Delete_def
        io_outcome_def word_le_nat_alt)
  have m: "(5::u64) \<le> 2 ^ 63"
    by simp
  have e: "enqueues [Enqueued None, Enqueued None, Dequeued (Inr [1])] < unat (5::u64)"
    by simp
  have w: "head q_wrap < 5 \<and> tail q_wrap < 5"
    by (simp add: q_wrap_def)
  from Length_counts [OF m o r e]
  have 1: "Length 5 q_after = Inr (of_nat (enqueues [Enqueued None, Enqueued None, Dequeued (Inr [1])]
              - dequeues [Enqueued None, Enqueued None, Dequeued (Inr [1])]))"
    and 2: "\<forall>q'. head q' < 5 \<and> tail q' < 5 \<longrightarrow>
            (\<exists>n. Length 5 q' = Inr n \<and> n = (5 + tail q' - head q') mod 5 \<and>
                 unat n = (if head q' \<le> tail q' then unat (tail q') - unat (head q')
                           else unat (5::u64) - unat (head q') + unat (tail q')))"
    by blast+
  from 1 have 3: "Length 5 q_after = Inr 1"
    by simp
  from 2 w have "Length 5 q_wrap = Inr ((5 + tail q_wrap - head q_wrap) mod 5)"
    by blast
  then have 4: "Length 5 q_wrap = Inr 3"
    by (simp add: q_wrap_def)
  from r 3 4 show ?thesis
    by simp
qed

subsection \<open>Keys and identifiers\<close>

text \<open>Decoding a key gives back the identifier it was made from, so keys are distinct.\<close>

lemma diff_less_conv: "0 < m \<Longrightarrow> (n::nat) - k < m \<longleftrightarrow> n < k + m"
  by arith

lemma be_Uint64_idToKey: "be_Uint64 (idToKey i) = i"
proof (rule bit_word_eqI)
  fix n :: nat
  assume "n < LENGTH(64)"
  then have "n < 8 \<or> (8 \<le> n \<and> n < 16) \<or> (16 \<le> n \<and> n < 24) \<or> (24 \<le> n \<and> n < 32)
      \<or> (32 \<le> n \<and> n < 40) \<or> (40 \<le> n \<and> n < 48) \<or> (48 \<le> n \<and> n < 56)
      \<or> (56 \<le> n \<and> n < 64)"
    by simp arith
  then show "bit (be_Uint64 (idToKey i)) n = bit i n"
    unfolding be_Uint64_def idToKey_def
    by (elim disjE conjE; simp add: bit_simps diff_less_conv)
qed

lemma keyToID_idToKey: "keyToID (idToKey i) = Inr i"
  by (simp add: keyToID_def be_Uint64_idToKey) (simp add: idToKey_def)

lemma idToKey_inj: "idToKey a = idToKey b \<Longrightarrow> a = b"
  by (metis be_Uint64_idToKey)

subsection \<open>First in, first out\<close>

text \<open>The store calls of a reliable store.\<close>

lemma io_outcome_reliable:
  assumes "reliable d"
  shows "io_outcome d = (None, d\<lparr>pending := tl (pending d)\<rparr>)"
proof (cases "pending d")
  case Nil
  then have "d\<lparr>pending := tl (pending d)\<rparr> = d"
    by (cases d) simp
  with Nil show ?thesis
    by (simp add: io_outcome_def)
next
  case (Cons r rs)
  with assms have "r = None"
    by (simp add: reliable_def)
  with Cons show ?thesis
    by (simp add: io_outcome_def)
qed

lemma reliable_tl: "reliable d \<Longrightarrow> reliable (d\<lparr>pending := tl (pending d), entries := es\<rparr>)"
  by (cases "pending d") (auto simp: reliable_def)

lemma db_Get_reliable:
  assumes "reliable d" and "map_of (entries d) k = Some v"
  shows "db_Get k d = (Inr v, d\<lparr>pending := tl (pending d)\<rparr>)"
  using assms by (simp add: db_Get_def io_outcome_reliable)

lemma db_Delete_reliable:
  assumes "reliable d"
  shows "db_Delete k d = (None, d\<lparr>pending := tl (pending d), entries := AList.delete k (entries d)\<rparr>)"
  using assms by (simp add: db_Delete_def io_outcome_reliable)

lemma enqueue_success_store:
  assumes "enqueue mqs v q = Inr (None, q')"
  shows "entries (db q') = AList.update (idToKey (tail q')) v (entries (db q))"
  using assms
  by (auto simp: enqueue_def go_mod_def db_Put_def io_outcome_def
           split: if_splits prod.splits option.splits list.splits)

text \<open>
  A dequeue on a reliable store, with the next identifier stored; then a run of
  dequeues over stored values, and a run of successful enqueues.
\<close>

lemma dequeue_reliable:
  assumes o: "isOpen q" and rel: "reliable (db q)" and m: "mqs \<le> 2 ^ 63"
    and ht: "unat (head q) < unat (tail q)" and tm: "unat (tail q) < unat mqs"
    and v: "map_of (entries (db q)) (idToKey ((head q + 1) mod mqs)) = Some v"
  shows "dequeue mqs q =
           Inr (Inr v, q\<lparr>db := (db q)\<lparr>pending := tl (tl (pending (db q))),
                                        entries := AList.delete (idToKey ((head q + 1) mod mqs))
                                                     (entries (db q))\<rparr>,
                          head := (head q + 1) mod mqs\<rparr>)"
proof -
  let ?n = "(head q + 1) mod mqs"
  have nz: "mqs \<noteq> 0"
    using tm by auto
  from ht tm have "Suc (unat (head q)) < unat mqs"
    by simp
  from unat_succ_mod [OF this] have un: "unat ?n = Suc (unat (head q))" .
  have r: "head q < mqs" "tail q < mqs" and lt: "head q < tail q"
    using ht tm by (simp_all add: word_less_nat_alt)
  from lt have "head q \<noteq> tail q"
    by simp
  with Length_zero_iff [OF r m] have l0: "Length mqs q \<noteq> Inr 0"
    by simp
  from unat_Length [OF r m] obtain l where l: "Length mqs q = Inr l"
    by blast
  with l0 have lnz: "l \<noteq> 0"
    by simp
  have rng: "head q < ?n \<and> ?n \<le> tail q"
    using un ht by (simp add: word_less_nat_alt word_le_nat_alt)
  have nlt: "\<not> tail q < head q"
    using lt by (simp add: not_less less_imp_le)
  have g: "getValueByID mqs ?n q = Inr (getValueByID_db ?n q)"
    by (rule getValueByID_in_range [OF l lnz]) (use rng nlt in simp_all)
  have gd: "getValueByID_db ?n q = (Inr v, q\<lparr>db := (db q)\<lparr>pending := tl (pending (db q))\<rparr>\<rparr>)"
    by (simp add: getValueByID_db_def db_Get_reliable [OF rel v])
  let ?d1 = "(db q)\<lparr>pending := tl (pending (db q))\<rparr>"
  have rel1: "reliable ?d1"
    using reliable_tl [OF rel, of "entries (db q)"] by simp
  have del: "db_Delete (idToKey ?n) ?d1 =
      (None, (db q)\<lparr>pending := tl (tl (pending (db q))),
                     entries := AList.delete (idToKey ?n) (entries (db q))\<rparr>)"
    using db_Delete_reliable [OF rel1, of "idToKey ?n"] by simp
  show ?thesis
    using o nz by (simp add: dequeue_def go_mod_def g gd del)
qed

lemma run_dequeues:
  assumes m: "mqs \<le> 2 ^ 63"
  shows "isOpen q \<Longrightarrow> reliable (db q) \<Longrightarrow> unat (tail q) = unat (head q) + length vs \<Longrightarrow>
         unat (tail q) < unat mqs \<Longrightarrow>
         (\<forall>i. unat (head q) < unat i \<and> unat i \<le> unat (tail q) \<longrightarrow>
              map_of (entries (db q)) (idToKey i) = Some (vs ! (unat i - unat (head q) - 1))) \<Longrightarrow>
         \<exists>q2. run mqs (replicate (length vs) Deq) q = Inr (map (\<lambda>v. Dequeued (Inr v)) vs, q2) \<and>
              head q2 = tail q2"
proof (induction vs arbitrary: q)
  case Nil
  then have "unat (head q) = unat (tail q)"
    by simp
  then have "head q = tail q"
    by (simp add: word_unat_eq_iff)
  then show ?case
    by simp
next
  case (Cons v vs)
  let ?n = "(head q + 1) mod mqs"
  from Cons.prems(3) have ht: "unat (head q) < unat (tail q)"
    by simp
  with Cons.prems(4) have "Suc (unat (head q)) < unat mqs"
    by simp
  from unat_succ_mod [OF this] have un: "unat ?n = Suc (unat (head q))" .
  from Cons.prems(5) un ht have v: "map_of (entries (db q)) (idToKey ?n) = Some v"
    by simp
  let ?q1 = "q\<lparr>db := (db q)\<lparr>pending := tl (tl (pending (db q))),
                                entries := AList.delete (idToKey ?n) (entries (db q))\<rparr>,
                  head := ?n\<rparr>"
  from dequeue_reliable [OF Cons.prems(1,2) m ht Cons.prems(4) v]
  have d: "dequeue mqs q = Inr (Inr v, ?q1)" .
  have rel: "reliable (db ?q1)"
    using reliable_tl [OF reliable_tl [OF Cons.prems(2), of "entries (db q)"],
        of "AList.delete (idToKey ?n) (entries (db q))"]
    by simp
  have st: "\<forall>i. unat (head ?q1) < unat i \<and> unat i \<le> unat (tail ?q1) \<longrightarrow>
              map_of (entries (db ?q1)) (idToKey i) = Some (vs ! (unat i - unat (head ?q1) - 1))"
  proof (intro allI impI)
    fix i :: u64
    assume a: "unat (head ?q1) < unat i \<and> unat i \<le> unat (tail ?q1)"
    with un have b: "Suc (unat (head q)) < unat i" "unat i \<le> unat (tail q)"
      by simp_all
    then have "i \<noteq> ?n"
      using un by auto
    then have "idToKey i \<noteq> idToKey ?n"
      using idToKey_inj by blast
    then have "map_of (entries (db ?q1)) (idToKey i) = map_of (entries (db q)) (idToKey i)"
      by simp
    also from Cons.prems(5) b have "\<dots> = Some ((v # vs) ! (unat i - unat (head q) - 1))"
      by simp
    also have "(v # vs) ! (unat i - unat (head q) - 1) = vs ! (unat i - Suc (unat (head q)) - 1)"
    proof -
      from b have "unat i - unat (head q) - 1 = Suc (unat i - Suc (unat (head q)) - 1)"
        by arith
      then show ?thesis
        by simp
    qed
    finally show "map_of (entries (db ?q1)) (idToKey i) = Some (vs ! (unat i - unat (head ?q1) - 1))"
      using un by simp
  qed
  have "\<exists>q2. run mqs (replicate (length vs) Deq) ?q1 = Inr (map (\<lambda>v. Dequeued (Inr v)) vs, q2) \<and>
              head q2 = tail q2"
  proof (rule Cons.IH [OF _ rel _ _ st])
    show "isOpen ?q1" using Cons.prems(1) by simp
    show "unat (tail ?q1) = unat (head ?q1) + length vs" using Cons.prems(3) un by simp
    show "unat (tail ?q1) < unat mqs" using Cons.prems(4) by simp
  qed
  then obtain q2 where
    "run mqs (replicate (length vs) Deq) ?q1 = Inr (map (\<lambda>v. Dequeued (Inr v)) vs, q2)"
    "head q2 = tail q2"
    by blast
  with d show ?case
    by simp
qed


lemma run_enqueues_store:
  "run mqs (map Enq vs) q = Inr (map (\<lambda>_. Enqueued None) vs, q1) \<Longrightarrow>
   unat (tail q) + length vs < unat mqs \<Longrightarrow>
   head q1 = head q \<and> unat (tail q1) = unat (tail q) + length vs \<and> isOpen q1 = isOpen q \<and>
   (\<forall>i. unat (tail q) < unat i \<and> unat i \<le> unat (tail q1) \<longrightarrow>
        map_of (entries (db q1)) (idToKey i) = Some (vs ! (unat i - unat (tail q) - 1))) \<and>
   (\<forall>i. unat i \<le> unat (tail q) \<or> unat (tail q1) < unat i \<longrightarrow>
        map_of (entries (db q1)) (idToKey i) = map_of (entries (db q)) (idToKey i))"
proof (induction vs arbitrary: q)
  case Nil
  then show ?case
    by auto
next
  case (Cons v vs)
  from Cons.prems(1) have "run mqs (Enq v # map Enq vs) q =
      Inr (Enqueued None # map (\<lambda>_. Enqueued None) vs, q1)"
    by simp
  then obtain r qa rs1 where
    e: "enqueue mqs v q = Inr (r, qa)" and r: "run mqs (map Enq vs) qa = Inr (rs1, q1)"
    and rs: "Enqueued None # map (\<lambda>_. Enqueued None) vs = Enqueued r # rs1"
    by (rule run_Enq)
  from rs have r0: "r = None" and rs1: "rs1 = map (\<lambda>_. Enqueued None) vs"
    by simp_all
  from enqueue_success [OF e [unfolded r0]]
  have t: "tail qa = (tail q + 1) mod mqs" and h: "head qa = head q"
    and o: "isOpen q" "isOpen qa"
    by simp_all
  from Cons.prems(2) have "Suc (unat (tail q)) < unat mqs"
    by simp
  from unat_succ_mod [OF this] t have ta: "unat (tail qa) = Suc (unat (tail q))"
    by simp
  have es: "entries (db qa) = AList.update (idToKey (tail qa)) v (entries (db q))"
    by (rule enqueue_success_store [OF e [unfolded r0]])
  from Cons.prems(2) ta have "unat (tail qa) + length vs < unat mqs"
    by simp
  from Cons.IH [OF r [unfolded rs1] this]
  have ih: "head q1 = head qa" "unat (tail q1) = unat (tail qa) + length vs"
    "isOpen q1 = isOpen qa"
    "\<forall>i. unat (tail qa) < unat i \<and> unat i \<le> unat (tail q1) \<longrightarrow>
        map_of (entries (db q1)) (idToKey i) = Some (vs ! (unat i - unat (tail qa) - 1))"
    "\<forall>i. unat i \<le> unat (tail qa) \<or> unat (tail q1) < unat i \<longrightarrow>
        map_of (entries (db q1)) (idToKey i) = map_of (entries (db qa)) (idToKey i)"
    by simp_all
  have new: "\<forall>i. unat (tail q) < unat i \<and> unat i \<le> unat (tail q1) \<longrightarrow>
        map_of (entries (db q1)) (idToKey i) = Some ((v # vs) ! (unat i - unat (tail q) - 1))"
  proof (intro allI impI)
    fix i :: u64
    assume a: "unat (tail q) < unat i \<and> unat i \<le> unat (tail q1)"
    show "map_of (entries (db q1)) (idToKey i) = Some ((v # vs) ! (unat i - unat (tail q) - 1))"
    proof (cases "unat i = unat (tail qa)")
      case True
      then have i: "i = tail qa"
        by (simp add: word_unat_eq_iff)
      from ih(5) True have "map_of (entries (db q1)) (idToKey i) = map_of (entries (db qa)) (idToKey i)"
        by simp
      also have "\<dots> = Some v"
        by (simp add: es i update_conv')
      finally show ?thesis
        using True ta by simp
    next
      case False
      with a ta have b: "unat (tail qa) < unat i" "unat i \<le> unat (tail q1)"
        by simp_all
      with ih(4) have "map_of (entries (db q1)) (idToKey i) = Some (vs ! (unat i - unat (tail qa) - 1))"
        by simp
      moreover from b ta have "unat i - unat (tail q) - 1 = Suc (unat i - unat (tail qa) - 1)"
        by arith
      ultimately show ?thesis
        by simp
    qed
  qed
  have old: "\<forall>i. unat i \<le> unat (tail q) \<or> unat (tail q1) < unat i \<longrightarrow>
        map_of (entries (db q1)) (idToKey i) = map_of (entries (db q)) (idToKey i)"
  proof (intro allI impI)
    fix i :: u64
    assume a: "unat i \<le> unat (tail q) \<or> unat (tail q1) < unat i"
    with ta ih(2) have b: "unat i \<le> unat (tail qa) \<or> unat (tail q1) < unat i"
      and ne: "unat i \<noteq> unat (tail qa)"
      by auto
    from ne have "i \<noteq> tail qa"
      by auto
    then have k: "idToKey i \<noteq> idToKey (tail qa)"
      using idToKey_inj by blast
    from ih(5) b have "map_of (entries (db q1)) (idToKey i) = map_of (entries (db qa)) (idToKey i)"
      by blast
    also from k have "\<dots> = map_of (entries (db q)) (idToKey i)"
      by (simp add: es update_conv')
    finally show "map_of (entries (db q1)) (idToKey i) = map_of (entries (db q)) (idToKey i)" .
  qed
  from ih(1,2,3) h ta o new old show ?case
    by simp
qed

text \<open>
  C1. From a queue just opened on an empty store, after \<open>k\<close> successful enqueues of the
  payloads \<open>v1 .. vk\<close> with \<open>k < MaxQueueSize\<close> (and \<open>MaxQueueSize\<close> at most \<open>2 ^ 63\<close>), \<open>k\<close>
  dequeues on which no store call fails succeed one after the other, and the \<open>i\<close>-th
  returns \<open>vi\<close>; the queue is empty afterwards.
\<close>

theorem fifo_order:
  assumes "mqs \<le> 2 ^ 63"
    and "entries d = []" and "OpenQueue dataDir (Inr d) = Inr (None, q0)"
    and "run mqs (map Enq vs) q0 = Inr (map (\<lambda>_. Enqueued None) vs, q1)"
    and "length vs < unat mqs"
    and "reliable (db q1)"
  shows "\<exists>q2. run mqs (replicate (length vs) Deq) q1 = Inr (map (\<lambda>v. Dequeued (Inr v)) vs, q2) \<and>
              head q2 = tail q2"
proof -
  from OpenQueue_fresh [OF assms(2,3)] have z: "head q0 = 0" "tail q0 = 0" "isOpen q0"
    by simp_all
  from assms(5) z have "unat (tail q0) + length vs < unat mqs"
    by simp
  from run_enqueues_store [OF assms(4) this] z
  have s: "head q1 = 0" "unat (tail q1) = length vs" "isOpen q1"
    "\<forall>i. 0 < unat i \<and> unat i \<le> unat (tail q1) \<longrightarrow>
        map_of (entries (db q1)) (idToKey i) = Some (vs ! (unat i - 1))"
    by simp_all
  show ?thesis
  proof (rule run_dequeues [OF assms(1) s(3) assms(6)])
    show "unat (tail q1) = unat (head q1) + length vs"
      using s(1,2) by simp
    show "unat (tail q1) < unat mqs"
      using s(2) assms(5) by simp
    show "\<forall>i. unat (head q1) < unat i \<and> unat i \<le> unat (tail q1) \<longrightarrow>
              map_of (entries (db q1)) (idToKey i) = Some (vs ! (unat i - unat (head q1) - 1))"
      using s(1,4) by simp
  qed
qed

theorem fifo_order_witness:
  "run 5 (map Enq [[97], [98], [99]]) q_fresh =
     Inr (map (\<lambda>_. Enqueued None) [[97], [98], [99 :: byte]], q_abc) \<and>
   run 5 (replicate 3 Deq) q_abc =
     Inr ([Dequeued (Inr [97]), Dequeued (Inr [98]), Dequeued (Inr [99])], q_drained)"
proof -
  have o: "entries (db q_fresh) = []"
    "OpenQueue ''data'' (Inr (db q_fresh)) = Inr (None, q_fresh)"
    by (simp_all add: OpenQueue_def init_def db_NewIterator_def iter_First_def iter_Last_def
          iter_seek_def iter_Release_def q_fresh_def)
  have e: "run 5 (map Enq [[97], [98], [99]]) q_fresh =
     Inr (map (\<lambda>_. Enqueued None) [[97], [98], [99 :: byte]], q_abc)"
    by (simp add: idToKey_small q_fresh_def q_abc_def enqueue_def go_mod_def db_Put_def
          io_outcome_def)
  have m: "(5::u64) \<le> 2 ^ 63" "length [[97], [98], [99 :: byte]] < unat (5::u64)"
    "reliable (db q_abc)"
    by (simp_all add: reliable_def q_abc_def)
  from fifo_order [OF m(1) o e m(2,3)] obtain q2 where
    d: "run 5 (replicate (length [[97], [98], [99 :: byte]]) Deq) q_abc =
          Inr (map (\<lambda>v. Dequeued (Inr v)) [[97], [98], [99]], q2)"
    by blast
  have rep: "replicate 3 Deq = [Deq, Deq, Deq]"
    by (simp add: numeral_3_eq_3)
  have "run 5 (replicate 3 Deq) q_abc =
     Inr ([Dequeued (Inr [97]), Dequeued (Inr [98]), Dequeued (Inr [99])], q_drained)"
    by (simp add: rep idToKey_small q_abc_def q_drained_def dequeue_def
          getValueByID_def getValueByID_db_def Length_def go_mod_def db_Get_def db_Delete_def
          io_outcome_def word_le_nat_alt)
  with e d show ?thesis
    by simp
qed

end
